theory Spec2Isabelle
  imports Main
begin

section \<open>The largest uniform rectangle finder of \<open>core/tools.py\<close>\<close>

text \<open>
  The model follows \<open>TOOLS.max_size\<close>, \<open>TOOLS.max_rectangle_size\<close> and \<open>TOOLS.area\<close>.
  Python integers are \<open>int\<close>. The booleans of the first histogram
  (\<open>[(el == value) for el in ...]\<close>) are the integers 0 and 1, as Python computes with them
  (\<open>1 + True = 2\<close>, \<open>True > False\<close>, \<open>(True, 2) == (1, 2)\<close>).
\<close>

subsection \<open>Data\<close>

text \<open>A size is the tuple \<open>(height, width)\<close>; a stack entry is \<open>Info(start, height)\<close>.\<close>

type_synonym rsize = "int \<times> int"
type_synonym info = "int \<times> int"

text \<open>\<open>area(size) = reduce(mul, size)\<close> on a pair.\<close>

definition area :: "rsize \<Rightarrow> int" where
  "area sz = fst sz * snd sz"

text \<open>
  \<open>max(a, b, key=self.area)\<close>: Python's \<open>max\<close> keeps the first of several maximal items,
  so \<open>b\<close> is returned only when its key is strictly greater.
\<close>

definition max_by_area :: "rsize \<Rightarrow> rsize \<Rightarrow> rsize" where
  "max_by_area a b = (if area a < area b then b else a)"

subsection \<open>\<open>max_rectangle_size\<close>\<close>

text \<open>
  The \<open>while True\<close> loop for one column. The stack is a list whose head is the top
  (\<open>stack[-1]\<close>). The three branches are the source's, in its order; the last case
  (\<open>height == top().height\<close>) only breaks.
\<close>

fun scan_column :: "int \<Rightarrow> int \<Rightarrow> int \<Rightarrow> info list \<Rightarrow> rsize \<Rightarrow> info list \<times> rsize" where
  "scan_column pos height start [] best = ([(start, height)], best)"
| "scan_column pos height start ((tstart, theight) # rest) best =
     (if theight < height then ((start, height) # (tstart, theight) # rest, best)
      else if height < theight then
        scan_column pos height tstart rest (max_by_area best (theight, pos - tstart))
      else ((tstart, theight) # rest, best))"

text \<open>
  \<open>for pos, height in enumerate(histogram)\<close>. The state holds the loop variable \<open>pos\<close>
  as last assigned (0 before the loop), the stack and \<open>max_size\<close>; the first argument is
  the index \<open>enumerate\<close> yields next.
\<close>

fun scan_loop :: "int \<Rightarrow> int list \<Rightarrow> int \<times> info list \<times> rsize \<Rightarrow> int \<times> info list \<times> rsize" where
  "scan_loop i [] st = st"
| "scan_loop i (height # hs) (pos, stack, best) =
     (case scan_column i height i stack best of
        (stack', best') \<Rightarrow> scan_loop (i + 1) hs (i, stack', best'))"

text \<open>
  One iteration of \<open>for start, height in stack\<close> after the scan: the state is
  \<open>(max_size, start_pos)\<close>.
\<close>

definition flush_step :: "int \<Rightarrow> rsize \<times> int \<Rightarrow> info \<Rightarrow> rsize \<times> int" where
  "flush_step pos st frame =
     (let m = max_by_area (fst st) (snd frame, pos - fst frame)
      in if area (fst st) \<le> area m then (m, fst frame) else st)"

text \<open>The frames are visited from the bottom of the stack to its top.\<close>

definition flush :: "int \<Rightarrow> info list \<Rightarrow> rsize \<times> int \<Rightarrow> rsize \<times> int" where
  "flush pos stack st = foldl (flush_step pos) st (rev stack)"

definition max_rectangle_size :: "int list \<Rightarrow> rsize \<times> int" where
  "max_rectangle_size histogram =
     (case scan_loop 0 histogram (0, [], (0, 0)) of
        (pos, stack, best) \<Rightarrow> flush (pos + 1) stack (best, 0))"

subsection \<open>\<open>max_size\<close>\<close>

text \<open>
  The histogram of the first row, \<open>[(el == value) for el in next(it, [])]\<close>, and the update
  \<open>[(1+h) if el == value else 0 for h, el in zip(hist, row)]\<close>; \<open>zip\<close> stops at the shorter
  of its two arguments.
\<close>

definition first_hist :: "'a \<Rightarrow> 'a list \<Rightarrow> int list" where
  "first_hist val row = map (\<lambda>el. if el = val then 1 else 0) row"

definition update_hist :: "'a \<Rightarrow> int list \<Rightarrow> 'a list \<Rightarrow> int list" where
  "update_hist val hist row = map (\<lambda>(h, el). if el = val then 1 + h else 0) (zip hist row)"

text \<open>
  \<open>for row in it\<close>: the state is \<open>(hist, max_size, start_pos, start_row, counter)\<close>.
\<close>

fun row_loop :: "'a \<Rightarrow> 'a list list \<Rightarrow> int list \<times> rsize \<times> int \<times> int \<times> int
    \<Rightarrow> int list \<times> rsize \<times> int \<times> int \<times> int" where
  "row_loop val [] st = st"
| "row_loop val (row # rows) (hist, best, start_pos, start_row, counter) =
     (let counter' = counter + 1;
          hist' = update_hist val hist row
      in case max_rectangle_size hist' of
           (m, s) \<Rightarrow>
             if area best < area m then row_loop val rows (hist', m, s, counter', counter')
             else row_loop val rows (hist', best, start_pos, start_row, counter'))"

text \<open>The result is \<open>((height, width), (y, x))\<close>.\<close>

definition max_size :: "'a list list \<Rightarrow> 'a \<Rightarrow> rsize \<times> (int \<times> int)" where
  "max_size mat val =
     (let hist0 = first_hist val (case mat of [] \<Rightarrow> [] | row # _ \<Rightarrow> row);
          rows = (case mat of [] \<Rightarrow> [] | _ # rest \<Rightarrow> rest)
      in case max_rectangle_size hist0 of
           (m0, s0) \<Rightarrow>
             (case row_loop val rows (hist0, m0, s0, 0, 0) of
                (hist, best, start_pos, start_row, counter) \<Rightarrow>
                  (let y = start_row - fst best + 1;
                       x = (if snd best = int (length hist) then 0
                            else min \<bar>start_pos - snd best + 1\<bar> start_pos)
                   in (best, (y, x)))))"

subsection \<open>What a caller observes\<close>

text \<open>
  The two error kinds the specification names. A call either returns (\<open>Inr\<close>) or raises
  (\<open>Inl\<close>). The bodies of \<open>max_size\<close>, \<open>max_rectangle_size\<close> and \<open>area\<close> hold no
  \<open>raise\<close>, and on a list of lists none of their operations fails: \<open>next(it, [])\<close> has a
  default, \<open>zip\<close> truncates, the stack is read and popped only behind the emptiness test,
  and \<open>reduce(mul, size)\<close> runs on a pair. So every call returns.
\<close>

datatype error = EmptyMatrix | ShapeMismatch

definition max_size_call :: "'a list list \<Rightarrow> 'a \<Rightarrow> error + (rsize \<times> (int \<times> int))" where
  "max_size_call mat val = Inr (max_size mat val)"

subsection \<open>The brute-force maximum under a histogram\<close>

text \<open>
  The area under the columns \<open>i..<j\<close>: their number times their minimum
  (\<open>(j - i) * min(histogram[i..j))\<close>), 0 for an empty range; and the maximum over all
  \<open>0 \<le> i \<le> j \<le> W\<close>.
\<close>

definition rect_area :: "int list \<Rightarrow> nat \<Rightarrow> nat \<Rightarrow> int" where
  "rect_area histogram i j =
     (if i = j then 0 else int (j - i) * Min (set (take (j - i) (drop i histogram))))"

definition hist_max_area :: "int list \<Rightarrow> int" where
  "hist_max_area histogram =
     Max (set (concat (map (\<lambda>j. map (\<lambda>i. rect_area histogram i j) [0..<Suc j])
                          [0..<Suc (length histogram)])))"

subsection \<open>The invariant of the scan\<close>

text \<open>
  \<open>under hs i j h\<close>: a rectangle of height \<open>h\<close> fits under the columns \<open>i..<j\<close>. Before
  column \<open>n\<close> is read, every frame \<open>(start, height)\<close> of the stack fits under the columns
  \<open>start..<n\<close>; starts and heights grow towards the top; every column range that ends at
  \<open>n\<close> is covered by a frame that starts no later and is no lower; every range that ended
  earlier is either no larger than \<open>max_size\<close> or still covered by a frame; and \<open>max_size\<close>
  is the area of a rectangle that fits.
\<close>

definition under :: "int list \<Rightarrow> nat \<Rightarrow> nat \<Rightarrow> int \<Rightarrow> bool" where
  "under hs i j h \<longleftrightarrow> (\<forall>k. i \<le> k \<and> k < j \<longrightarrow> h \<le> hs ! k)"

definition frames_ok :: "int list \<Rightarrow> nat \<Rightarrow> info list \<Rightarrow> bool" where
  "frames_ok hs n stack \<longleftrightarrow>
     (\<forall>f \<in> set stack. 0 \<le> fst f \<and> fst f < int n \<and> under hs (nat (fst f)) n (snd f))"

definition stack_sorted :: "info list \<Rightarrow> bool" where
  "stack_sorted stack \<longleftrightarrow> sorted_wrt (\<lambda>f g. fst g \<le> fst f \<and> snd g \<le> snd f) stack"

definition covered :: "int list \<Rightarrow> nat \<Rightarrow> nat \<Rightarrow> info list \<Rightarrow> bool" where
  "covered hs b n stack \<longleftrightarrow>
     (\<forall>i h. i < b \<and> under hs i n h \<longrightarrow> (\<exists>f \<in> set stack. fst f \<le> int i \<and> h \<le> snd f))"

definition dominated :: "int list \<Rightarrow> nat \<Rightarrow> info list \<Rightarrow> rsize \<Rightarrow> bool" where
  "dominated hs n stack best \<longleftrightarrow>
     (\<forall>i j h. i < j \<and> j \<le> n \<and> under hs i j h \<longrightarrow>
        h * int (j - i) \<le> area best \<or> (\<exists>f \<in> set stack. fst f \<le> int i \<and> h \<le> snd f))"

definition achieved :: "int list \<Rightarrow> nat \<Rightarrow> rsize \<Rightarrow> bool" where
  "achieved hs n best \<longleftrightarrow>
     0 \<le> area best \<and>
     (area best = 0 \<or> (\<exists>i j h. i < j \<and> j \<le> n \<and> under hs i j h \<and> area best = h * int (j - i)))"

definition scan_inv :: "int list \<Rightarrow> nat \<Rightarrow> info list \<Rightarrow> rsize \<Rightarrow> bool" where
  "scan_inv hs n stack best \<longleftrightarrow>
     frames_ok hs n stack \<and> stack_sorted stack \<and> covered hs n n stack \<and>
     dominated hs n stack best \<and> achieved hs n best"

subsection \<open>The brute-force maximum in a matrix\<close>

text \<open>
  \<open>uniform_rect mat val top_row left_col h w\<close>: every cell of the \<open>h\<close> by \<open>w\<close> rectangle with
  top-left corner \<open>(top_row, left_col)\<close> equals \<open>val\<close>. \<open>sub_rects H W\<close> lists the rectangles
  inside an \<open>H\<close> by \<open>W\<close> matrix, the empty ones included, so that the maximum is 0 when the
  target value never occurs.
\<close>

definition uniform_rect :: "'a list list \<Rightarrow> 'a \<Rightarrow> nat \<Rightarrow> nat \<Rightarrow> nat \<Rightarrow> nat \<Rightarrow> bool" where
  "uniform_rect mat val top_row left_col h w \<longleftrightarrow>
     (\<forall>r \<in> {top_row..<top_row + h}. \<forall>c \<in> {left_col..<left_col + w}. mat ! r ! c = val)"

definition sub_rects :: "nat \<Rightarrow> nat \<Rightarrow> (nat \<times> nat \<times> nat \<times> nat) list" where
  "sub_rects H W =
     concat (map (\<lambda>top_row. concat (map (\<lambda>h. concat (map (\<lambda>left_col. map (\<lambda>w. (top_row, left_col, h, w))
       [0..<Suc (W - left_col)]) [0..<Suc W])) [0..<Suc (H - top_row)])) [0..<Suc H])"

definition mat_max_area :: "'a list list \<Rightarrow> 'a \<Rightarrow> int" where
  "mat_max_area mat val =
     Max (set (map (\<lambda>(top_row, left_col, h, w). int (h * w))
       (filter (\<lambda>(top_row, left_col, h, w). uniform_rect mat val top_row left_col h w)
         (sub_rects (length mat) (case mat of [] \<Rightarrow> 0 | row # _ \<Rightarrow> length row)))))"

subsection \<open>The invariant of the row loop\<close>

text \<open>
  After row \<open>t\<close>, the entry of column \<open>c\<close> is the length of the run of target values that
  ends at row \<open>t\<close> in that column: it lies between 0 and \<open>t + 1\<close>, the cells of the run
  equal the target, and no longer run ends there. \<open>best_ok mat val W n best\<close>: the area of
  \<open>best\<close> bounds every uniform rectangle inside the first \<open>n\<close> rows and is the area of one.
\<close>

definition col_ok :: "'a list list \<Rightarrow> 'a \<Rightarrow> nat \<Rightarrow> nat \<Rightarrow> int \<Rightarrow> bool" where
  "col_ok mat val t c x \<longleftrightarrow>
     0 \<le> x \<and> x \<le> int (Suc t) \<and>
     (\<forall>r. int (Suc t) - x \<le> int r \<and> r \<le> t \<longrightarrow> mat ! r ! c = val) \<and>
     (\<forall>top_row. top_row \<le> t \<and> (\<forall>r. top_row \<le> r \<and> r \<le> t \<longrightarrow> mat ! r ! c = val)
         \<longrightarrow> int (Suc t - top_row) \<le> x)"

definition hist_ok :: "'a list list \<Rightarrow> 'a \<Rightarrow> nat \<Rightarrow> nat \<Rightarrow> int list \<Rightarrow> bool" where
  "hist_ok mat val W t hist \<longleftrightarrow> length hist = W \<and> (\<forall>c < W. col_ok mat val t c (hist ! c))"

definition best_ok :: "'a list list \<Rightarrow> 'a \<Rightarrow> nat \<Rightarrow> nat \<Rightarrow> rsize \<Rightarrow> bool" where
  "best_ok mat val W n best \<longleftrightarrow>
     (\<forall>top_row left_col h w. top_row + h \<le> n \<and> left_col + w \<le> W \<and> uniform_rect mat val top_row left_col h w
        \<longrightarrow> int (h * w) \<le> area best) \<and>
     (\<exists>top_row left_col h w. top_row + h \<le> n \<and> left_col + w \<le> W \<and> uniform_rect mat val top_row left_col h w \<and>
        area best = int (h * w))"

section \<open>Evaluation\<close>

lemmas eval_defs =
  max_size_def max_size_call_def first_hist_def update_hist_def max_rectangle_size_def
  flush_def flush_step_def max_by_area_def area_def

section \<open>The concrete scenarios\<close>

text \<open>
  C9. \<open>max_size\<close> on \<open>[[1,1,0],[1,1,0],[0,0,0]]\<close> with target 1 returns height 2, width 2,
  top row 0, left column 0; on \<open>[[0,1,0],[1,1,1],[0,1,0]]\<close> with target 1 it returns
  height 1, width 3, top row 1, left column 0; on \<open>[[5]]\<close> with target 5 it returns height 1,
  width 1, top row 0, left column 0, and with target 9 height 0 and width 0.
\<close>

theorem max_size_scenarios:
  "max_size [[1, 1, 0], [1, 1, 0], [0, 0, 0::int]] 1 = ((2, 2), (0, 0)) \<and>
   max_size [[0, 1, 0], [1, 1, 1], [0, 1, 0::int]] 1 = ((1, 3), (1, 0)) \<and>
   max_size [[5::int]] 5 = ((1, 1), (0, 0)) \<and>
   fst (max_size [[5::int]] 9) = (0, 0)"
proof -
  have s1: "max_size [[1, 1, 0], [1, 1, 0], [0, 0, 0::int]] 1 = ((2, 2), (0, 0))"
    by code_simp
  have s2: "max_size [[0, 1, 0], [1, 1, 1], [0, 1, 0::int]] 1 = ((1, 3), (1, 0))"
    by code_simp
  have s3: "max_size [[5::int]] 5 = ((1, 1), (0, 0))"
    by code_simp
  have s4: "fst (max_size [[5::int]] 9) = (0, 0)"
    by code_simp
  from s1 s2 s3 s4 show ?thesis by blast
qed

section \<open>The matrix without rows\<close>

text \<open>
  C10. For every target value, \<open>max_size\<close> on a matrix with zero rows raises no error and
  returns size \<open>(0, 0)\<close> with position \<open>(1, 0)\<close>.
\<close>

theorem max_size_no_rows: "max_size_call [] val = Inr ((0, 0), (1, 0))"
  by (simp add: eval_defs)

text \<open>
  C5, as stated: \<open>max_size\<close> fails with \<open>EmptyMatrix\<close> when the matrix has zero rows. It does
  not: \<open>next(it, [])\<close> supplies an empty first row and the call returns.
\<close>

theorem empty_matrix_counterexample:
  "max_size_call ([] :: int list list) 0 \<noteq> Inl EmptyMatrix"
  by (simp add: max_size_call_def)

text \<open>
  C5, amended: on a matrix with zero rows \<open>max_size\<close> raises no error, neither
  \<open>EmptyMatrix\<close> nor any other; it returns the degenerate size \<open>(0, 0)\<close>, of area 0.
\<close>

theorem max_size_no_rows_returns:
  "max_size_call [] val \<noteq> Inl e \<and> fst (max_size [] val) = (0, 0) \<and> area (fst (max_size [] val)) = 0"
  by (simp add: eval_defs)

section \<open>Rows of differing lengths\<close>

lemma length_update_hist: "length (update_hist val hist row) = min (length hist) (length row)"
  by (simp add: update_hist_def)

lemma row_loop_hist_length:
  "length (fst (row_loop val rows (hist, best, sp, sr, c)))
     = Min (insert (length hist) (length ` set rows))"
proof (induction rows arbitrary: hist best sp sr c)
  case Nil
  show ?case by simp
next
  case (Cons row rows)
  let ?S = "length ` set rows"
  have fin: "finite ?S" by simp
  have m: "Min (insert (min (length hist) (length row)) ?S)
             = Min (insert (length hist) (insert (length row) ?S))"
  proof (cases "?S = {}")
    case True
    then show ?thesis by simp
  next
    case False
    then show ?thesis using fin by (simp add: min.assoc)
  qed
  obtain m s where ms: "max_rectangle_size (update_hist val hist row) = (m, s)"
    by (cases "max_rectangle_size (update_hist val hist row)")
  show ?case
  proof (cases "area best < area m")
    case True
    then show ?thesis using ms Cons.IH[of "update_hist val hist row"] m
      by (simp add: Let_def length_update_hist)
  next
    case False
    then show ?thesis using ms Cons.IH[of "update_hist val hist row"] m
      by (simp add: Let_def length_update_hist)
  qed
qed

text \<open>
  C4, as stated: \<open>max_size\<close> fails with \<open>ShapeMismatch\<close> whenever the rows differ in length.
  It does not: on \<open>[[1,1],[1]]\<close> the call returns.
\<close>

theorem shape_mismatch_counterexample:
  "length [1, 1::int] \<noteq> length [1::int] \<and>
   max_size_call [[1, 1], [1::int]] 1 = Inr ((1, 2), (0, 0))"
proof -
  have "max_size_call [[1, 1], [1::int]] 1 = Inr ((1, 2), (0, 0))"
    by code_simp
  then show ?thesis by simp
qed

text \<open>
  C4, amended: \<open>max_size\<close> raises no error on rows of differing lengths. Each update cuts the
  histogram to the shorter of the previous histogram and the row, so that after the row
  loop the histogram is as long as the shortest of the first histogram and the rows seen,
  and the call returns.
\<close>

theorem ragged_rows_truncate:
  "max_size_call mat val \<noteq> Inl e \<and>
   length (update_hist val hist row) = min (length hist) (length row) \<and>
   length (fst (row_loop val rows (hist, best, sp, sr, c)))
     = Min (insert (length hist) (length ` set rows))"
  by (simp add: max_size_call_def length_update_hist row_loop_hist_length)

section \<open>The histogram update\<close>

lemma update_hist_nth:
  "c < length hist \<Longrightarrow> c < length row \<Longrightarrow>
   update_hist val hist row ! c = (if row ! c = val then hist ! c + 1 else 0)"
  by (simp add: update_hist_def)

lemma first_hist_update: "first_hist val row = update_hist val (replicate (length row) 0) row"
  by (rule nth_equalityI) (simp_all add: first_hist_def update_hist_def)

text \<open>
  C8. For a previous histogram and a row of the same length \<open>W\<close> and every target value,
  the updated histogram has at each column \<open>c\<close> the value \<open>previous_histogram[c] + 1\<close> if
  \<open>row[c]\<close> equals the target and 0 otherwise; the histogram of the first row is the update
  of the all-zero histogram, 1 where the row matches the target and 0 elsewhere.
\<close>

theorem update_hist_columns:
  assumes "length hist = length row"
  shows "length (update_hist val hist row) = length row \<and>
         (\<forall>c < length row. update_hist val hist row ! c = (if row ! c = val then hist ! c + 1 else 0)) \<and>
         first_hist val row = update_hist val (replicate (length row) 0) row \<and>
         (\<forall>c < length row. first_hist val row ! c = (if row ! c = val then 1 else 0))"
  using assms by (simp add: length_update_hist update_hist_nth first_hist_update [symmetric] first_hist_def)

theorem update_hist_columns_witness:
  "length [2, 0, 1::int] = length [7, 7, 3::int] \<and>
   update_hist (7::int) [2, 0, 1] [7, 7, 3] ! 0 = 3 \<and>
   update_hist (7::int) [2, 0, 1] [7, 7, 3] ! 2 = 0 \<and>
   first_hist (7::int) [7, 7, 3] ! 1 = 1"
proof -
  have l: "length [2, 0, 1::int] = length [7, 7, 3::int]" by simp
  note t = update_hist_columns [OF l, of 7]
  from t have u: "\<And>c. c < length [7, 7, 3::int] \<Longrightarrow>
      update_hist (7::int) [2, 0, 1] [7, 7, 3] ! c = (if [7, 7, 3::int] ! c = 7 then [2, 0, 1] ! c + 1 else 0)"
    by blast
  from t have f: "\<And>c. c < length [7, 7, 3::int] \<Longrightarrow>
      first_hist (7::int) [7, 7, 3] ! c = (if [7, 7, 3::int] ! c = 7 then 1 else 0)"
    by blast
  have "update_hist (7::int) [2, 0, 1] [7, 7, 3] ! 0 = 3" using u [of 0] by simp
  moreover have "update_hist (7::int) [2, 0, 1] [7, 7, 3] ! 2 = 0" using u [of 2] by simp
  moreover have "first_hist (7::int) [7, 7, 3] ! 1 = 1" using f [of 1] by simp
  ultimately show ?thesis by simp
qed

section \<open>The comparisons of the two phases\<close>




text \<open>
  C6. In the flush, the best and its start column should change exactly when the
  candidate's area is at least the best's, and a strictly smaller candidate should leave
  both unchanged. The source tests \<open>area(_max_size) >= area(max_size)\<close> with \<open>_max_size\<close>
  already the maximum of the two, which always holds: on the histogram \<open>[2, 0, 1]\<close> the
  last frame \<open>(2, 1)\<close> has the candidate \<open>(1, 1)\<close> of area 1, smaller than the best \<open>(2, 1)\<close>
  of area 2 found at column 0, and the start column is still overwritten with 2. The first
  conjunct is the general fact: every flush step sets the start column to its frame's.
\<close>

theorem flush_overwrites_start_column:
  "snd (flush_step pos st frame) = fst frame \<and>
   area (1, 3 - 2) < area (2, 1) \<and>
   flush_step 3 ((2, 1), 0) (2, 1) = ((2, 1), 2) \<and>
   max_rectangle_size [2, 0, 1] = ((2, 1), 2)"
proof -
  have "max_rectangle_size [2, 0, 1] = ((2, 1), 2)" by code_simp
  moreover have "snd (flush_step pos st frame) = fst frame"
    by (simp add: flush_step_def Let_def max_by_area_def)
  ultimately show ?thesis by (simp add: flush_step_def max_by_area_def area_def)
qed

section \<open>The position returned\<close>

text \<open>
  C2. The rectangle at the returned position should lie inside the matrix and hold only
  the target value. On \<open>[[0, 1, 1]]\<close> with target 1 the size \<open>(1, 2)\<close> is right, but the
  position is \<open>(0, 0)\<close>, where the cell is 0: the flush yields the start column 1 and
  \<open>min(abs(1 - 2 + 1), 1)\<close> is 0.
\<close>

theorem max_size_wrong_left_column:
  "max_size [[0, 1, 1::int]] 1 = ((1, 2), (0, 0)) \<and> [[0, 1, 1::int]] ! 0 ! 0 \<noteq> 1"
proof -
  have "max_size [[0, 1, 1::int]] 1 = ((1, 2), (0, 0))" by code_simp
  then show ?thesis by simp
qed

section \<open>The stack solver finds the maximal area\<close>

lemma slice_set:
  assumes "i \<le> j" "j \<le> length hs"
  shows "set (take (j - i) (drop i hs)) = (\<lambda>k. hs ! k) ` {i..<j}"
proof (intro set_eqI iffI)
  fix x assume "x \<in> set (take (j - i) (drop i hs))"
  then obtain k where "k < j - i" "x = take (j - i) (drop i hs) ! k"
    by (auto simp: in_set_conv_nth)
  then have "x = hs ! (i + k)" "i + k \<in> {i..<j}" using assms by auto
  then show "x \<in> (\<lambda>k. hs ! k) ` {i..<j}" by (rule image_eqI)
next
  fix x assume "x \<in> (\<lambda>k. hs ! k) ` {i..<j}"
  then obtain k where k: "i \<le> k" "k < j" "x = hs ! k" by auto
  then have "k - i < length (take (j - i) (drop i hs))"
    and "take (j - i) (drop i hs) ! (k - i) = x"
    using assms by auto
  then show "x \<in> set (take (j - i) (drop i hs))" using nth_mem by blast
qed

lemma rect_area_under:
  assumes "i < j" "j \<le> length hs"
  shows "\<exists>m. rect_area hs i j = m * int (j - i) \<and> under hs i j m \<and> (\<forall>h. under hs i j h \<longrightarrow> h \<le> m)"
proof -
  let ?S = "(\<lambda>k. hs ! k) ` {i..<j}"
  have S: "set (take (j - i) (drop i hs)) = ?S" using assms by (simp add: slice_set)
  have fin: "finite ?S" and ne: "?S \<noteq> {}" using assms by auto
  have mem: "Min ?S \<in> ?S" using fin ne by (rule Min_in)
  have le: "\<And>k. i \<le> k \<Longrightarrow> k < j \<Longrightarrow> Min ?S \<le> hs ! k"
    using fin by (intro Min_le) auto
  have 1: "rect_area hs i j = Min ?S * int (j - i)"
    using assms S by (simp add: rect_area_def mult.commute)
  have 2: "under hs i j (Min ?S)" using le by (simp add: under_def)
  have 3: "\<forall>h. under hs i j h \<longrightarrow> h \<le> Min ?S"
  proof (intro allI impI)
    fix h assume u: "under hs i j h"
    from mem obtain k where "i \<le> k" "k < j" "Min ?S = hs ! k" by auto
    with u show "h \<le> Min ?S" by (simp add: under_def)
  qed
  from 1 2 3 show ?thesis by blast
qed

lemma area_max_by_area: "area (max_by_area a b) = max (area a) (area b)"
  by (simp add: max_by_area_def)

lemma max_by_area_cases: "max_by_area a b = a \<or> (max_by_area a b = b \<and> area a < area b)"
  by (simp add: max_by_area_def)

lemma fst_flush_step: "fst (flush_step pos st frame) = max_by_area (fst st) (snd frame, pos - fst frame)"
  by (simp add: flush_step_def Let_def area_max_by_area)

lemma foldl_flush_area:
  "area (fst (foldl (flush_step pos) st fs)) = Max (insert (area (fst st)) ((\<lambda>f. area (snd f, pos - fst f)) ` set fs))"
proof (induction fs arbitrary: st)
  case Nil
  show ?case by simp
next
  case (Cons f fs)
  let ?g = "\<lambda>f. area (snd f, pos - fst f)"
  have "area (fst (foldl (flush_step pos) st (f # fs)))
        = Max (insert (max (area (fst st)) (?g f)) (?g ` set fs))"
    by (simp add: Cons.IH fst_flush_step area_max_by_area)
  also have "\<dots> = Max (insert (area (fst st)) (?g ` set (f # fs)))"
  proof (cases "set fs = {}")
    case True
    then show ?thesis by simp
  next
    case False
    then show ?thesis by (simp add: max.assoc)
  qed
  finally show ?case .
qed

lemma foldl_flush_choice:
  "fst (foldl (flush_step pos) st fs) = fst st \<or>
   (\<exists>f \<in> set fs. fst (foldl (flush_step pos) st fs) = (snd f, pos - fst f))"
proof (induction fs arbitrary: st)
  case Nil
  show ?case by simp
next
  case (Cons f fs)
  from Cons.IH [of "flush_step pos st f"] max_by_area_cases [of "fst st" "(snd f, pos - fst f)"]
  show ?case by (auto simp: fst_flush_step)
qed

lemma flush_area:
  "area (fst (flush pos stack (best, sp))) = Max (insert (area best) ((\<lambda>f. area (snd f, pos - fst f)) ` set stack))"
  by (simp add: flush_def foldl_flush_area)

lemma flush_choice:
  "fst (flush pos stack (best, sp)) = best \<or>
   (\<exists>f \<in> set stack. fst (flush pos stack (best, sp)) = (snd f, pos - fst f))"
  using foldl_flush_choice [of pos "(best, sp)" "rev stack"] by (simp add: flush_def)


lemma under_Suc: "under hs i (Suc n) h \<longleftrightarrow> under hs i n h \<and> (i \<le> n \<longrightarrow> h \<le> hs ! n)"
  by (auto simp: under_def less_Suc_eq)

lemma under_le: "under hs i j h \<Longrightarrow> h' \<le> h \<Longrightarrow> under hs i j h'"
  by (force simp: under_def)

lemma achieved_mono: "achieved hs n best \<Longrightarrow> n \<le> m \<Longrightarrow> achieved hs m best"
  unfolding achieved_def by (meson le_trans)

lemma stack_sorted_Cons:
  "stack_sorted (f # stack) \<longleftrightarrow> (\<forall>g \<in> set stack. fst g \<le> fst f \<and> snd g \<le> snd f) \<and> stack_sorted stack"
  by (simp add: stack_sorted_def)

lemma scan_exit:
  assumes fr: "frames_ok hs (Suc n) stack'" and so: "stack_sorted stack'"
    and cov: "covered hs (Suc n) (Suc n) stack'" and sub: "set stack \<subseteq> set stack'"
    and dom: "dominated hs n stack best" and ach: "achieved hs n best"
  shows "scan_inv hs (Suc n) stack' best"
proof -
  have "dominated hs (Suc n) stack' best"
    unfolding dominated_def
  proof (intro allI impI)
    fix i j h
    assume a: "i < j \<and> j \<le> Suc n \<and> under hs i j h"
    show "h * int (j - i) \<le> area best \<or> (\<exists>f \<in> set stack'. fst f \<le> int i \<and> h \<le> snd f)"
    proof (cases "j \<le> n")
      case True
      with a dom have "h * int (j - i) \<le> area best \<or> (\<exists>f \<in> set stack. fst f \<le> int i \<and> h \<le> snd f)"
        unfolding dominated_def by blast
      with sub show ?thesis by blast
    next
      case False
      with a have "j = Suc n" "i < Suc n" by auto
      with a cov show ?thesis unfolding covered_def by blast
    qed
  qed
  moreover have "achieved hs (Suc n) best" using ach by (rule achieved_mono) simp
  ultimately show ?thesis using fr so cov by (simp add: scan_inv_def)
qed

lemma push_exit:
  assumes st: "0 \<le> start" "start \<le> int n" and un: "under hs (nat start) n (hs ! n)"
    and fr: "frames_ok hs n stack" and so: "stack_sorted stack"
    and below: "\<forall>f \<in> set stack. fst f \<le> start \<and> snd f \<le> hs ! n"
    and cov: "covered hs (nat start) n stack"
    and dom: "dominated hs n stack best" and ach: "achieved hs n best"
  shows "scan_inv hs (Suc n) ((start, hs ! n) # stack) best"
proof (rule scan_exit [OF _ _ _ _ dom ach])
  show "frames_ok hs (Suc n) ((start, hs ! n) # stack)"
    unfolding frames_ok_def
  proof
    fix f assume "f \<in> set ((start, hs ! n) # stack)"
    then consider "f = (start, hs ! n)" | "f \<in> set stack" by auto
    then show "0 \<le> fst f \<and> fst f < int (Suc n) \<and> under hs (nat (fst f)) (Suc n) (snd f)"
    proof cases
      case 1
      then show ?thesis using st un by (simp add: under_Suc)
    next
      case 2
      then show ?thesis using fr below by (auto simp: frames_ok_def under_Suc)
    qed
  qed
  show "stack_sorted ((start, hs ! n) # stack)"
    using so below by (simp add: stack_sorted_Cons)
  show "covered hs (Suc n) (Suc n) ((start, hs ! n) # stack)"
    unfolding covered_def
  proof (intro allI impI)
    fix i h assume a: "i < Suc n \<and> under hs i (Suc n) h"
    then have u: "under hs i n h" and hn: "h \<le> hs ! n" by (auto simp: under_Suc)
    show "\<exists>f \<in> set ((start, hs ! n) # stack). fst f \<le> int i \<and> h \<le> snd f"
    proof (cases "i < nat start")
      case True
      with u cov show ?thesis unfolding covered_def by fastforce
    next
      case False
      then have "start \<le> int i" by linarith
      with hn show ?thesis by simp
    qed
  qed
  show "set stack \<subseteq> set ((start, hs ! n) # stack)" by auto
qed

lemma keep_exit:
  assumes st: "0 \<le> start" "start \<le> int n"
    and fr: "frames_ok hs n ((ts, th) # rest)" and so: "stack_sorted ((ts, th) # rest)"
    and eq: "th = hs ! n" and below: "ts \<le> start"
    and cov: "covered hs (nat start) n ((ts, th) # rest)"
    and dom: "dominated hs n ((ts, th) # rest) best" and ach: "achieved hs n best"
  shows "scan_inv hs (Suc n) ((ts, th) # rest) best"
proof (rule scan_exit [OF _ so _ _ dom ach])
  have le: "\<forall>f \<in> set ((ts, th) # rest). snd f \<le> hs ! n"
    using so eq by (auto simp: stack_sorted_Cons)
  show "frames_ok hs (Suc n) ((ts, th) # rest)"
    using fr le unfolding frames_ok_def by (auto simp: under_Suc)
  show "covered hs (Suc n) (Suc n) ((ts, th) # rest)"
    unfolding covered_def
  proof (intro allI impI)
    fix i h assume a: "i < Suc n \<and> under hs i (Suc n) h"
    then have u: "under hs i n h" and hn: "h \<le> hs ! n" by (auto simp: under_Suc)
    show "\<exists>f \<in> set ((ts, th) # rest). fst f \<le> int i \<and> h \<le> snd f"
    proof (cases "i < nat start")
      case True
      with u cov show ?thesis unfolding covered_def by blast
    next
      case False
      then have "ts \<le> int i" using below by linarith
      with hn eq show ?thesis by simp
    qed
  qed
  show "set ((ts, th) # rest) \<subseteq> set ((ts, th) # rest)" by simp
qed


lemma pop_dominated:
  assumes fr: "frames_ok hs n ((ts, th) # rest)"
    and dom: "dominated hs n ((ts, th) # rest) best" and ach: "achieved hs n best"
  shows "dominated hs n rest (max_by_area best (th, int n - ts))"
  unfolding dominated_def
proof (intro allI impI)
  fix i j h
  assume a: "i < j \<and> j \<le> n \<and> under hs i j h"
  let ?b = "max_by_area best (th, int n - ts)"
  have b0: "0 \<le> area best" using ach by (simp add: achieved_def)
  have up: "area best \<le> area ?b" and cand: "th * (int n - ts) \<le> area ?b"
    by (simp_all add: area_max_by_area) (simp add: area_def)
  from a dom consider "h * int (j - i) \<le> area best"
    | "ts \<le> int i \<and> h \<le> th" | "\<exists>f \<in> set rest. fst f \<le> int i \<and> h \<le> snd f"
    unfolding dominated_def by fastforce
  then show "h * int (j - i) \<le> area ?b \<or> (\<exists>f \<in> set rest. fst f \<le> int i \<and> h \<le> snd f)"
  proof cases
    case 1
    with up show ?thesis by linarith
  next
    case 2
    show ?thesis
    proof (cases "0 \<le> h")
      case True
      have w: "int (j - i) \<le> int n - ts" using a 2 by linarith
      have "h * int (j - i) \<le> th * (int n - ts)"
        using 2 w True by (intro mult_mono) auto
      with cand show ?thesis by linarith
    next
      case False
      then have "h * int (j - i) \<le> 0" by (simp add: mult_le_0_iff)
      with b0 up show ?thesis by linarith
    qed
  next
    case 3
    then show ?thesis by blast
  qed
qed

lemma pop_achieved:
  assumes fr: "frames_ok hs n ((ts, th) # rest)" and ach: "achieved hs n best"
  shows "achieved hs n (max_by_area best (th, int n - ts))"
proof -
  from max_by_area_cases [of best "(th, int n - ts)"] show ?thesis
  proof
    assume "max_by_area best (th, int n - ts) = best"
    with ach show ?thesis by simp
  next
    assume c: "max_by_area best (th, int n - ts) = (th, int n - ts) \<and> area best < area (th, int n - ts)"
    from fr have t: "0 \<le> ts" "ts < int n" "under hs (nat ts) n th"
      by (simp_all add: frames_ok_def)
    have lt: "nat ts < n" using t by linarith
    have ar: "area (th, int n - ts) = th * int (n - nat ts)"
      using t by (simp add: area_def of_nat_diff)
    have nn: "0 \<le> area (th, int n - ts)" using c ach by (simp add: achieved_def)
    have "\<exists>i j h. i < j \<and> j \<le> n \<and> under hs i j h \<and> area (th, int n - ts) = h * int (j - i)"
      using lt t(3) ar by blast
    with nn c show ?thesis by (simp add: achieved_def)
  qed
qed

lemma pop_covered:
  assumes cov: "covered hs (nat start) n ((ts, th) # rest)" and le: "ts \<le> start" "0 \<le> ts"
  shows "covered hs (nat ts) n rest"
  unfolding covered_def
proof (intro allI impI)
  fix i h assume a: "i < nat ts \<and> under hs i n h"
  then have "i < nat start" using le by linarith
  with a cov obtain f where f: "f \<in> set ((ts, th) # rest)" "fst f \<le> int i" "h \<le> snd f"
    unfolding covered_def by blast
  from a have "int i < ts" by linarith
  with f have "f \<in> set rest" by auto
  with f show "\<exists>f \<in> set rest. fst f \<le> int i \<and> h \<le> snd f" by blast
qed

lemma scan_column_inv:
  assumes "frames_ok hs n stack" "stack_sorted stack" "0 \<le> start" "start \<le> int n"
    "under hs (nat start) n (hs ! n)" "\<forall>f \<in> set stack. fst f \<le> start"
    "covered hs (nat start) n stack" "dominated hs n stack best" "achieved hs n best"
    "scan_column (int n) (hs ! n) start stack best = (stack', best')"
  shows "scan_inv hs (Suc n) stack' best'"
  using assms
proof (induction stack arbitrary: start best)
  case Nil
  have "scan_inv hs (Suc n) ((start, hs ! n) # []) best"
    using Nil.prems by (intro push_exit) simp_all
  with Nil.prems(10) show ?case by simp
next
  case (Cons f rest)
  obtain ts th where f: "f = (ts, th)" by (cases f)
  note p = Cons.prems [unfolded f]
  from p(1) have t: "0 \<le> ts" "ts < int n" "under hs (nat ts) n th"
    by (simp_all add: frames_ok_def)
  from p(2) have srt: "\<forall>g \<in> set rest. fst g \<le> ts \<and> snd g \<le> th" "stack_sorted rest"
    by (simp_all add: stack_sorted_Cons)
  from p(6) have ts: "ts \<le> start" by simp
  consider "th < hs ! n" | "hs ! n < th" | "th = hs ! n" by linarith
  then show ?case
  proof cases
    case 1
    have below: "\<forall>g \<in> set ((ts, th) # rest). fst g \<le> start \<and> snd g \<le> hs ! n"
      using p(6) srt(1) 1 by auto
    have "scan_inv hs (Suc n) ((start, hs ! n) # (ts, th) # rest) best"
      using p(3,4,5,1,2) below p(7,8,9) by (rule push_exit)
    with p(10) 1 show ?thesis by simp
  next
    case 2
    let ?b = "max_by_area best (th, int n - ts)"
    have call: "scan_column (int n) (hs ! n) ts rest ?b = (stack', best')"
      using p(10) 2 by simp
    have fr: "frames_ok hs n rest" using p(1) by (simp add: frames_ok_def)
    have "hs ! n \<le> th" using 2 by simp
    with t(3) have un: "under hs (nat ts) n (hs ! n)" by (rule under_le)
    have le: "\<forall>g \<in> set rest. fst g \<le> ts" using srt(1) by blast
    have cov: "covered hs (nat ts) n rest" using p(7) ts t(1) by (rule pop_covered)
    have dom: "dominated hs n rest ?b" using p(1,8,9) by (rule pop_dominated)
    have ach: "achieved hs n ?b" using p(1,9) by (rule pop_achieved)
    have tn: "ts \<le> int n" using t(2) by simp
    show ?thesis
      using fr srt(2) t(1) tn un le cov dom ach call by (rule Cons.IH)
  next
    case 3
    have "scan_inv hs (Suc n) ((ts, th) # rest) best"
      using p(3,4,1,2) 3 ts p(7,8,9) by (rule keep_exit)
    with p(10) 3 show ?thesis by simp
  qed
qed


lemma scan_inv_init: "scan_inv hs 0 [] (0, 0)"
  by (simp add: scan_inv_def frames_ok_def stack_sorted_def covered_def dominated_def
      achieved_def area_def)

lemma scan_loop_inv:
  assumes "drop n hs = rest" "n \<le> length hs" "scan_inv hs n stack best"
    "scan_loop (int n) rest (pos, stack, best) = (pos', stack', best')"
  shows "scan_inv hs (length hs) stack' best' \<and>
         pos' = (if rest = [] then pos else int (length hs) - 1)"
  using assms
proof (induction rest arbitrary: n pos stack best)
  case Nil
  then have "n = length hs" by simp
  with Nil.prems show ?case by simp
next
  case (Cons x rest)
  from Cons.prems(1) have n: "n < length hs"
    by (metis drop_all list.distinct(1) not_le)
  have x: "hs ! n = x" using Cons.prems(1) n
    by (metis Cons_nth_drop_Suc list.inject)
  have d: "drop (Suc n) hs = rest" using Cons.prems(1) n
    by (metis Cons_nth_drop_Suc list.inject)
  obtain stack1 best1 where c: "scan_column (int n) (hs ! n) (int n) stack best = (stack1, best1)"
    by (cases "scan_column (int n) (hs ! n) (int n) stack best")
  from Cons.prems(3) have i: "frames_ok hs n stack" "stack_sorted stack" "covered hs n n stack"
    "dominated hs n stack best" "achieved hs n best"
    by (simp_all add: scan_inv_def)
  have u: "under hs (nat (int n)) n (hs ! n)" by (simp add: under_def)
  have b: "\<forall>f \<in> set stack. fst f \<le> int n" using i(1) by (auto simp: frames_ok_def)
  have cv: "covered hs (nat (int n)) n stack" using i(3) by simp
  have inv1: "scan_inv hs (Suc n) stack1 best1"
    using i(1,2) _ _ u b cv i(4,5) c by (rule scan_column_inv) simp_all
  have call: "scan_loop (int (Suc n)) rest (int n, stack1, best1) = (pos', stack', best')"
    using Cons.prems(4) c x by (simp add: add.commute)
  have sn: "Suc n \<le> length hs" using n by simp
  from Cons.IH [OF d sn inv1 call]
  have r: "scan_inv hs (length hs) stack' best'"
    and p: "pos' = (if rest = [] then int n else int (length hs) - 1)"
    by simp_all
  have "rest = [] \<Longrightarrow> length hs = Suc n" using d sn by simp
  with p have "pos' = int (length hs) - 1" by (cases "rest = []") simp_all
  with r show ?case by simp
qed

lemma max_rectangle_size_bounds:
  "(\<forall>i j h. i < j \<and> j \<le> length hs \<and> under hs i j h
      \<longrightarrow> h * int (j - i) \<le> area (fst (max_rectangle_size hs))) \<and>
   achieved hs (length hs) (fst (max_rectangle_size hs))"
proof (cases "hs = []")
  case True
  then show ?thesis
    by (simp add: max_rectangle_size_def flush_def achieved_def area_def)
next
  case False
  let ?W = "length hs"
  obtain pos stack best where sl: "scan_loop (int 0) hs (0, [], (0, 0)) = (pos, stack, best)"
    by (cases "scan_loop (int 0) hs (0, [], (0, 0))")
  have d: "drop 0 hs = hs" by simp
  from scan_loop_inv [OF d _ scan_inv_init sl] False
  have inv: "scan_inv hs ?W stack best" and pos: "pos = int ?W - 1" by simp_all
  let ?r = "fst (flush (int ?W) stack (best, 0))"
  have res: "fst (max_rectangle_size hs) = ?r"
    using sl pos by (simp add: max_rectangle_size_def)
  from inv have fr: "frames_ok hs ?W stack" and dom: "dominated hs ?W stack best"
    and ach: "achieved hs ?W best"
    by (simp_all add: scan_inv_def)
  have fin: "finite (insert (area best) ((\<lambda>f. area (snd f, int ?W - fst f)) ` set stack))"
    by simp
  have ge_best: "area best \<le> area ?r"
    unfolding flush_area by (rule Max_ge [OF fin]) simp
  have ge_frame: "\<And>f. f \<in> set stack \<Longrightarrow> snd f * (int ?W - fst f) \<le> area ?r"
  proof -
    fix f assume "f \<in> set stack"
    then have "area (snd f, int ?W - fst f) \<le> area ?r"
      unfolding flush_area by (intro Max_ge [OF fin]) simp
    then show "snd f * (int ?W - fst f) \<le> area ?r" by (simp add: area_def)
  qed
  have b0: "0 \<le> area best" using ach by (simp add: achieved_def)
  have upper: "\<forall>i j h. i < j \<and> j \<le> ?W \<and> under hs i j h \<longrightarrow> h * int (j - i) \<le> area ?r"
  proof (intro allI impI)
    fix i j h assume a: "i < j \<and> j \<le> ?W \<and> under hs i j h"
    with dom consider "h * int (j - i) \<le> area best"
      | "\<exists>f \<in> set stack. fst f \<le> int i \<and> h \<le> snd f"
      unfolding dominated_def by blast
    then show "h * int (j - i) \<le> area ?r"
    proof cases
      case 1
      with ge_best show ?thesis by linarith
    next
      case 2
      then obtain f where f: "f \<in> set stack" "fst f \<le> int i" "h \<le> snd f" by blast
      show ?thesis
      proof (cases "0 \<le> h")
        case True
        have w: "int (j - i) \<le> int ?W - fst f" using a f(2) by linarith
        have "h * int (j - i) \<le> snd f * (int ?W - fst f)"
          using f(3) w True by (intro mult_mono) auto
        with ge_frame [OF f(1)] show ?thesis by linarith
      next
        case False
        then have "h * int (j - i) \<le> 0" by (simp add: mult_le_0_iff)
        with b0 ge_best show ?thesis by linarith
      qed
    qed
  qed
  have lower: "achieved hs ?W ?r"
  proof -
    from flush_choice [of "int ?W" stack best 0] show ?thesis
    proof
      assume "?r = best"
      with ach show ?thesis by simp
    next
      assume "\<exists>f \<in> set stack. ?r = (snd f, int ?W - fst f)"
      then obtain f where f: "f \<in> set stack" "?r = (snd f, int ?W - fst f)" by blast
      from fr f(1) have t: "0 \<le> fst f" "fst f < int ?W" "under hs (nat (fst f)) ?W (snd f)"
        by (simp_all add: frames_ok_def)
      have lt: "nat (fst f) < ?W" using t by linarith
      have ar: "area ?r = snd f * int (?W - nat (fst f))"
        using t f(2) by (simp add: area_def of_nat_diff)
      have "\<exists>i j h. i < j \<and> j \<le> ?W \<and> under hs i j h \<and> area ?r = h * int (j - i)"
        using lt t(3) ar by blast
      moreover have "0 \<le> area ?r" using b0 ge_best by linarith
      ultimately show ?thesis by (simp add: achieved_def)
    qed
  qed
  from upper lower res show ?thesis by simp
qed


lemma hist_areas_set:
  "set (concat (map (\<lambda>j. map (\<lambda>i. rect_area hs i j) [0..<Suc j]) [0..<Suc (length hs)]))
     = {a. \<exists>i j. i \<le> j \<and> j \<le> length hs \<and> a = rect_area hs i j}"
proof (intro set_eqI iffI)
  fix a
  assume "a \<in> set (concat (map (\<lambda>j. map (\<lambda>i. rect_area hs i j) [0..<Suc j]) [0..<Suc (length hs)]))"
  then obtain j i where "j < Suc (length hs)" "i < Suc j" "a = rect_area hs i j"
    by (auto simp del: upt_Suc)
  then have "i \<le> j \<and> j \<le> length hs \<and> a = rect_area hs i j" by simp
  then show "a \<in> {a. \<exists>i j. i \<le> j \<and> j \<le> length hs \<and> a = rect_area hs i j}" by blast
next
  fix a
  assume "a \<in> {a. \<exists>i j. i \<le> j \<and> j \<le> length hs \<and> a = rect_area hs i j}"
  then obtain i j where ij: "i \<le> j" "j \<le> length hs" "a = rect_area hs i j" by blast
  then have "j \<in> set [0..<Suc (length hs)]" "a \<in> set (map (\<lambda>i. rect_area hs i j) [0..<Suc j])"
    by (auto simp del: upt_Suc)
  then show "a \<in> set (concat (map (\<lambda>j. map (\<lambda>i. rect_area hs i j) [0..<Suc j]) [0..<Suc (length hs)]))"
    unfolding set_concat by (auto simp del: upt_Suc)
qed

lemma max_rectangle_size_area: "area (fst (max_rectangle_size hs)) = hist_max_area hs"
proof -
  let ?a = "area (fst (max_rectangle_size hs))"
  let ?S = "{a. \<exists>i j. i \<le> j \<and> j \<le> length hs \<and> a = rect_area hs i j}"
  from max_rectangle_size_bounds [of hs]
  have upper: "\<And>i j h. i < j \<Longrightarrow> j \<le> length hs \<Longrightarrow> under hs i j h \<Longrightarrow> h * int (j - i) \<le> ?a"
    and ach: "achieved hs (length hs) (fst (max_rectangle_size hs))"
    by blast+
  have a0: "0 \<le> ?a" using ach by (simp add: achieved_def)
  have le: "rect_area hs i j \<le> ?a" if "i \<le> j" "j \<le> length hs" for i j
  proof (cases "i = j")
    case True
    with a0 show ?thesis by (simp add: rect_area_def)
  next
    case False
    with that have "i < j" by simp
    from rect_area_under [OF this that(2)] obtain m
      where "rect_area hs i j = m * int (j - i)" "under hs i j m" by blast
    with upper [OF \<open>i < j\<close> that(2)] show ?thesis by simp
  qed
  have mem: "?a \<in> ?S"
  proof -
    from ach consider "?a = 0"
      | "\<exists>i j h. i < j \<and> j \<le> length hs \<and> under hs i j h \<and> ?a = h * int (j - i)"
      unfolding achieved_def by blast
    then show ?thesis
    proof cases
      case 1
      have "?a = rect_area hs 0 0" using 1 by (simp add: rect_area_def)
      then show ?thesis by blast
    next
      case 2
      then obtain i j h where r: "i < j" "j \<le> length hs" "under hs i j h" "?a = h * int (j - i)"
        by blast
      from rect_area_under [OF r(1,2)] obtain m
        where m: "rect_area hs i j = m * int (j - i)" "\<forall>h. under hs i j h \<longrightarrow> h \<le> m" by blast
      from m(2) r(3) have "h \<le> m" by blast
      then have "h * int (j - i) \<le> m * int (j - i)" by (intro mult_right_mono) auto
      with r(4) m(1) have "?a \<le> rect_area hs i j" by simp
      moreover have "rect_area hs i j \<le> ?a" using r(1,2) by (intro le) auto
      ultimately have "?a = rect_area hs i j" by simp
      moreover have "i \<le> j" using r(1) by simp
      ultimately show ?thesis using r(2) by blast
    qed
  qed
  have fin: "finite ?S"
    unfolding hist_areas_set [symmetric] by (rule finite_set)
  have "Max ?S = ?a"
    using fin _ mem by (rule Max_eqI) (use le in blast)
  then show ?thesis unfolding hist_max_area_def hist_areas_set by simp
qed

text \<open>
  C3. For every histogram, the \<open>(height, width)\<close> pair returned by \<open>max_rectangle_size\<close>
  has \<open>height * width\<close> equal to the maximum over all \<open>0 \<le> i \<le> j \<le> W\<close> of
  \<open>(j - i) * min(histogram[i..j))\<close>, which is 0 for the empty histogram. The entries need
  not be non-negative for this.
\<close>

theorem max_rectangle_size_maximal:
  "area (fst (max_rectangle_size histogram)) = hist_max_area histogram"
  by (rule max_rectangle_size_area)

section \<open>The row scan finds the maximal area\<close>

lemma in_concat_map: "x \<in> set (concat (map f xs)) \<longleftrightarrow> (\<exists>y \<in> set xs. x \<in> set (f y))"
  by auto

lemma sub_rects_set:
  "(top_row, left_col, h, w) \<in> set (sub_rects H W) \<longleftrightarrow> top_row + h \<le> H \<and> left_col + w \<le> W"
proof
  assume "(top_row, left_col, h, w) \<in> set (sub_rects H W)"
  then show "top_row + h \<le> H \<and> left_col + w \<le> W"
    unfolding sub_rects_def in_concat_map by (auto simp del: upt_Suc)
next
  assume a: "top_row + h \<le> H \<and> left_col + w \<le> W"
  have 1: "top_row \<in> set [0..<Suc H]" using a by (auto simp del: upt_Suc)
  have 2: "h \<in> set [0..<Suc (H - top_row)]" using a by (auto simp del: upt_Suc)
  have 3: "left_col \<in> set [0..<Suc W]" using a by (auto simp del: upt_Suc)
  have 4: "w \<in> set [0..<Suc (W - left_col)]" using a by (auto simp del: upt_Suc)
  have 5: "(top_row, left_col, h, w) \<in> set (map (\<lambda>w. (top_row, left_col, h, w)) [0..<Suc (W - left_col)])"
    using 4 by (simp del: upt_Suc)
  show "(top_row, left_col, h, w) \<in> set (sub_rects H W)"
    unfolding sub_rects_def in_concat_map
    using 1 2 3 5 by (intro bexI [of _ top_row] bexI [of _ h] bexI [of _ left_col])
qed


lemma col_ok_first: "col_ok mat val 0 c (if mat ! 0 ! c = val then 1 else 0)"
proof (cases "mat ! 0 ! c = val")
  case True
  then show ?thesis by (simp add: col_ok_def)
next
  case False
  have "\<And>top_row. top_row \<le> 0 \<and> (\<forall>r. top_row \<le> r \<and> r \<le> 0 \<longrightarrow> mat ! r ! c = val) \<Longrightarrow> False"
    using False by auto
  then show ?thesis using False by (auto simp: col_ok_def)
qed

lemma col_ok_step:
  assumes "col_ok mat val t c x"
  shows "col_ok mat val (Suc t) c (if mat ! Suc t ! c = val then 1 + x else 0)"
proof -
  from assms have x: "0 \<le> x" "x \<le> int (Suc t)"
    and run: "\<And>r. int (Suc t) - x \<le> int r \<Longrightarrow> r \<le> t \<Longrightarrow> mat ! r ! c = val"
    and full: "\<And>top_row. top_row \<le> t \<Longrightarrow> (\<forall>r. top_row \<le> r \<and> r \<le> t \<longrightarrow> mat ! r ! c = val)
        \<Longrightarrow> int (Suc t - top_row) \<le> x"
    unfolding col_ok_def by blast+
  show ?thesis
  proof (cases "mat ! Suc t ! c = val")
    case True
    have r2: "mat ! r ! c = val" if "int (Suc (Suc t)) - (1 + x) \<le> int r \<and> r \<le> Suc t" for r
    proof (cases "r = Suc t")
      case True
      with \<open>mat ! Suc t ! c = val\<close> show ?thesis by simp
    next
      case False
      with that have "r \<le> t" "int (Suc t) - x \<le> int r" by auto
      then show ?thesis using run by blast
    qed
    have r3: "int (Suc (Suc t) - top_row) \<le> 1 + x"
      if "top_row \<le> Suc t \<and> (\<forall>r. top_row \<le> r \<and> r \<le> Suc t \<longrightarrow> mat ! r ! c = val)" for top_row
    proof (cases "top_row \<le> t")
      case True
      from that have "\<forall>r. top_row \<le> r \<and> r \<le> t \<longrightarrow> mat ! r ! c = val" by auto
      from full [OF True this] True show ?thesis by (simp add: Suc_diff_le)
    next
      case False
      with that have "top_row = Suc t" by auto
      with x show ?thesis by simp
    qed
    have "0 \<le> 1 + x" "1 + x \<le> int (Suc (Suc t))" using x by auto
    with r2 r3 True show ?thesis unfolding col_ok_def by simp
  next
    case False
    have r3: "\<And>top_row. top_row \<le> Suc t \<and> (\<forall>r. top_row \<le> r \<and> r \<le> Suc t \<longrightarrow> mat ! r ! c = val) \<Longrightarrow> False"
      using False by auto
    have r2: "\<And>r. int (Suc (Suc t)) - 0 \<le> int r \<and> r \<le> Suc t \<Longrightarrow> False" by auto
    from r2 r3 False show ?thesis unfolding col_ok_def by auto
  qed
qed

lemma hist_ok_first:
  assumes "length (mat ! 0) = W"
  shows "hist_ok mat val W 0 (first_hist val (mat ! 0))"
  using assms col_ok_first [of mat val] by (simp add: hist_ok_def first_hist_def)

lemma hist_ok_step:
  assumes "hist_ok mat val W t hist" "length (mat ! Suc t) = W"
  shows "hist_ok mat val W (Suc t) (update_hist val hist (mat ! Suc t))"
proof -
  from assms have l: "length hist = W" and c: "\<And>c. c < W \<Longrightarrow> col_ok mat val t c (hist ! c)"
    by (simp_all add: hist_ok_def)
  have "col_ok mat val (Suc t) c (update_hist val hist (mat ! Suc t) ! c)" if "c < W" for c
    using col_ok_step [OF c [OF that]] that l assms(2)
    by (cases "mat ! Suc t ! c = val") (simp_all add: update_hist_nth add.commute)
  then show ?thesis using l assms(2) by (simp add: hist_ok_def length_update_hist)
qed


lemma best_ok_area_nonneg: "best_ok mat val W n best \<Longrightarrow> 0 \<le> area best"
  unfolding best_ok_def by auto

lemma best_ok_upper:
  assumes hk: "hist_ok mat val W t hist" and b: "best_ok mat val W t best"
    and ge: "area best \<le> area b'" "area (fst (max_rectangle_size hist)) \<le> area b'"
    and r: "top_row + h \<le> Suc t" "left_col + w \<le> W" "uniform_rect mat val top_row left_col h w"
  shows "int (h * w) \<le> area b'"
proof -
  have b0: "0 \<le> area best" using b by (rule best_ok_area_nonneg)
  consider "top_row + h \<le> t" | "h = 0 \<or> w = 0" | "top_row + h = Suc t" "0 < h" "0 < w"
    using r(1) by fastforce
  then show ?thesis
  proof cases
    case 1
    with b r(2,3) have "int (h * w) \<le> area best" unfolding best_ok_def by blast
    with ge(1) show ?thesis by linarith
  next
    case 2
    then have "int (h * w) = 0" by auto
    with b0 ge(1) show ?thesis by linarith
  next
    case 3
    from hk have l: "length hist = W" and c: "\<And>c. c < W \<Longrightarrow> col_ok mat val t c (hist ! c)"
      by (simp_all add: hist_ok_def)
    have u: "under hist left_col (left_col + w) (int h)"
      unfolding under_def
    proof (intro allI impI)
      fix k assume k: "left_col \<le> k \<and> k < left_col + w"
      then have "k < W" using r(2) by linarith
      from c [OF this] have full: "\<And>top_row. top_row \<le> t \<Longrightarrow>
          (\<forall>r. top_row \<le> r \<and> r \<le> t \<longrightarrow> mat ! r ! k = val) \<Longrightarrow> int (Suc t - top_row) \<le> hist ! k"
        unfolding col_ok_def by blast
      have tt: "top_row \<le> t" using 3 by linarith
      have "\<forall>r. top_row \<le> r \<and> r \<le> t \<longrightarrow> mat ! r ! k = val"
        using r(3) k 3(1) unfolding uniform_rect_def by auto
      from full [OF tt this] have "int (Suc t - top_row) \<le> hist ! k" .
      moreover have "Suc t - top_row = h" using 3(1) by linarith
      ultimately show "int h \<le> hist ! k" by simp
    qed
    from max_rectangle_size_bounds [of hist] l
    have "\<And>i j x. i < j \<Longrightarrow> j \<le> W \<Longrightarrow> under hist i j x
        \<Longrightarrow> x * int (j - i) \<le> area (fst (max_rectangle_size hist))"
      by blast
    from this [of left_col "left_col + w" "int h"] 3(3) r(2) u
    have "int h * int w \<le> area (fst (max_rectangle_size hist))" by simp
    with ge(2) show ?thesis by simp
  qed
qed

lemma best_ok_rect:
  assumes hk: "hist_ok mat val W t hist"
    and pos: "0 < area (fst (max_rectangle_size hist))"
  shows "\<exists>top_row left_col h w. top_row + h \<le> Suc t \<and> left_col + w \<le> W \<and>
           uniform_rect mat val top_row left_col h w \<and>
           area (fst (max_rectangle_size hist)) = int (h * w)"
proof -
  let ?m = "fst (max_rectangle_size hist)"
  from hk have l: "length hist = W" and c: "\<And>c. c < W \<Longrightarrow> col_ok mat val t c (hist ! c)"
    by (simp_all add: hist_ok_def)
  from max_rectangle_size_bounds [of hist] have "achieved hist W ?m" using l by simp
  with pos obtain i j x where ij: "i < j" "j \<le> W" "under hist i j x" "area ?m = x * int (j - i)"
    unfolding achieved_def by auto
  have xpos: "0 < x" using pos ij(1,4) by (simp add: zero_less_mult_iff)
  have xi: "x \<le> hist ! i" using ij(1,3) by (simp add: under_def)
  have "i < W" using ij(1,2) by linarith
  from c [OF this] have "hist ! i \<le> int (Suc t)" by (simp add: col_ok_def)
  with xi have xt: "x \<le> int (Suc t)" by linarith
  let ?h = "nat x" and ?top = "Suc t - nat x"
  have 1: "?top + ?h \<le> Suc t" using xt xpos by linarith
  have 2: "i + (j - i) \<le> W" using ij(1,2) by linarith
  have 3: "uniform_rect mat val ?top i ?h (j - i)"
    unfolding uniform_rect_def
  proof (intro ballI)
    fix r k assume r: "r \<in> {?top..<?top + ?h}" and k: "k \<in> {i..<i + (j - i)}"
    then have kk: "i \<le> k" "k < j" by auto
    then have "k < W" using ij(2) by linarith
    from c [OF this] have run: "\<And>r. int (Suc t) - hist ! k \<le> int r \<Longrightarrow> r \<le> t \<Longrightarrow> mat ! r ! k = val"
      unfolding col_ok_def by blast
    have "x \<le> hist ! k" using ij(3) kk by (simp add: under_def)
    moreover have "int (Suc t) - x \<le> int r" using r xt xpos by auto
    ultimately have "int (Suc t) - hist ! k \<le> int r" by linarith
    moreover have "r \<le> t" using r xt xpos by auto
    ultimately show "mat ! r ! k = val" by (rule run)
  qed
  have 4: "area ?m = int (?h * (j - i))" using ij(4) xpos by simp
  from 1 2 3 4 show ?thesis by blast
qed

lemma best_ok_step:
  assumes hk: "hist_ok mat val W t hist" and b: "best_ok mat val W t best"
    and m: "area b' = max (area best) (area (fst (max_rectangle_size hist)))"
  shows "best_ok mat val W (Suc t) b'"
proof -
  let ?m = "fst (max_rectangle_size hist)"
  have ge: "area best \<le> area b'" "area ?m \<le> area b'" using m by simp_all
  have upper: "\<forall>top_row left_col h w. top_row + h \<le> Suc t \<and> left_col + w \<le> W \<and>
      uniform_rect mat val top_row left_col h w \<longrightarrow> int (h * w) \<le> area b'"
    using best_ok_upper [OF hk b ge] by blast
  have b0: "0 \<le> area best" using b by (rule best_ok_area_nonneg)
  have ex: "\<exists>top_row left_col h w. top_row + h \<le> Suc t \<and> left_col + w \<le> W \<and>
      uniform_rect mat val top_row left_col h w \<and> area b' = int (h * w)"
  proof (cases "area best < area ?m")
    case True
    then have "0 < area ?m" "area b' = area ?m" using b0 m by simp_all
    with best_ok_rect [OF hk] show ?thesis by simp
  next
    case False
    then have e: "area b' = area best" using m by simp
    from b obtain top_row left_col h w where "top_row + h \<le> t" "left_col + w \<le> W"
      "uniform_rect mat val top_row left_col h w" "area best = int (h * w)"
      unfolding best_ok_def by blast
    then have "top_row + h \<le> Suc t \<and> left_col + w \<le> W \<and>
      uniform_rect mat val top_row left_col h w \<and> area b' = int (h * w)" using e by simp
    then show ?thesis by blast
  qed
  from upper ex show ?thesis unfolding best_ok_def by blast
qed


lemma row_loop_best_ok:
  assumes "drop (Suc t) mat = rows" "Suc t \<le> length mat" "\<forall>row \<in> set mat. length row = W"
    "hist_ok mat val W t hist" "best_ok mat val W (Suc t) best"
  shows "best_ok mat val W (length mat) (fst (snd (row_loop val rows (hist, best, sp, sr, c))))"
  using assms
proof (induction rows arbitrary: t hist best sp sr c)
  case Nil
  then have "length mat = Suc t" by simp
  with Nil.prems(5) show ?case by simp
next
  case (Cons row rows)
  from Cons.prems(1) have n: "Suc t < length mat"
    by (metis drop_all list.distinct(1) not_le)
  have row: "mat ! Suc t = row" and d: "drop (Suc (Suc t)) mat = rows"
    using Cons.prems(1) n by (metis Cons_nth_drop_Suc list.inject)+
  have "length (mat ! Suc t) = W" using Cons.prems(3) n by simp
  with Cons.prems(4) have hk: "hist_ok mat val W (Suc t) (update_hist val hist row)"
    unfolding row [symmetric] by (rule hist_ok_step)
  obtain m s where ms: "max_rectangle_size (update_hist val hist row) = (m, s)"
    by (cases "max_rectangle_size (update_hist val hist row)")
  let ?b = "if area best < area m then m else best"
  have "area ?b = max (area best) (area (fst (max_rectangle_size (update_hist val hist row))))"
    using ms by simp
  with hk Cons.prems(5) have bk: "best_ok mat val W (Suc (Suc t)) ?b" by (rule best_ok_step)
  have sn: "Suc (Suc t) \<le> length mat" using n by simp
  show ?case
  proof (cases "area best < area m")
    case True
    with bk have "best_ok mat val W (Suc (Suc t)) m" by simp
    from Cons.IH [OF d sn Cons.prems(3) hk this] True ms show ?thesis by (simp add: Let_def)
  next
    case False
    with bk have "best_ok mat val W (Suc (Suc t)) best" by simp
    from Cons.IH [OF d sn Cons.prems(3) hk this] False ms show ?thesis by (simp add: Let_def)
  qed
qed

lemma best_ok_init: "best_ok mat val W 0 (0, 0)"
proof -
  have "uniform_rect mat val 0 0 0 0" by (simp add: uniform_rect_def)
  then have "\<exists>top_row left_col h w. top_row + h \<le> 0 \<and> left_col + w \<le> W \<and>
      uniform_rect mat val top_row left_col h w \<and> area (0, 0) = int (h * w)"
    by (intro exI [of _ 0]) (simp add: area_def)
  then show ?thesis unfolding best_ok_def by (simp add: area_def)
qed

lemma fst_max_size_Cons:
  "fst (max_size (row # rows) val) =
     fst (snd (row_loop val rows
       (first_hist val row, fst (max_rectangle_size (first_hist val row)),
        snd (max_rectangle_size (first_hist val row)), 0, 0)))"
  by (simp add: max_size_def Let_def split: prod.split)

lemma max_size_best_ok:
  assumes "mat \<noteq> []" "\<forall>row \<in> set mat. length row = W"
  shows "best_ok mat val W (length mat) (fst (max_size mat val))"
proof -
  from assms(1) obtain row rows where mat: "mat = row # rows" by (cases mat) auto
  let ?h0 = "first_hist val row"
  let ?m0 = "fst (max_rectangle_size ?h0)"
  have "length (mat ! 0) = W" using assms(2) mat by simp
  then have "hist_ok mat val W 0 (first_hist val (mat ! 0))" by (rule hist_ok_first)
  then have hk: "hist_ok mat val W 0 ?h0" using mat by simp
  have "achieved ?h0 (length ?h0) ?m0" using max_rectangle_size_bounds [of ?h0] by simp
  then have "0 \<le> area ?m0" by (simp add: achieved_def)
  then have "area ?m0 = max (area (0, 0)) (area ?m0)" by (simp add: area_def)
  with hk best_ok_init have b: "best_ok mat val W (Suc 0) ?m0" by (rule best_ok_step)
  have d: "drop (Suc 0) mat = rows" and l: "Suc 0 \<le> length mat" using mat by simp_all
  from row_loop_best_ok [OF d l assms(2) hk b] show ?thesis
    unfolding mat fst_max_size_Cons by simp
qed

lemma max_size_area:
  assumes "mat \<noteq> []" "\<forall>row \<in> set mat. length row = length (hd mat)"
  shows "area (fst (max_size mat val)) = mat_max_area mat val"
proof -
  let ?W = "length (hd mat)" and ?H = "length mat"
  let ?a = "area (fst (max_size mat val))"
  let ?S = "set (map (\<lambda>(top_row, left_col, h, w). int (h * w))
       (filter (\<lambda>(top_row, left_col, h, w). uniform_rect mat val top_row left_col h w)
         (sub_rects ?H ?W)))"
  have W: "(case mat of [] \<Rightarrow> 0 | row # _ \<Rightarrow> length row) = ?W"
    using assms(1) by (cases mat) simp_all
  from max_size_best_ok [OF assms, of val]
  have upper: "\<And>top_row left_col h w. top_row + h \<le> ?H \<Longrightarrow> left_col + w \<le> ?W \<Longrightarrow>
      uniform_rect mat val top_row left_col h w \<Longrightarrow> int (h * w) \<le> ?a"
    and ex: "\<exists>top_row left_col h w. top_row + h \<le> ?H \<and> left_col + w \<le> ?W \<and>
      uniform_rect mat val top_row left_col h w \<and> ?a = int (h * w)"
    unfolding best_ok_def by blast+
  have le: "y \<le> ?a" if "y \<in> ?S" for y
  proof -
    from that obtain top_row left_col h w where
      "(top_row, left_col, h, w) \<in> set (sub_rects ?H ?W)"
      "uniform_rect mat val top_row left_col h w" "y = int (h * w)"
      by auto
    then have "top_row + h \<le> ?H" "left_col + w \<le> ?W"
      "uniform_rect mat val top_row left_col h w" "y = int (h * w)"
      by (simp_all add: sub_rects_set)
    with upper [of top_row h left_col w] show ?thesis by simp
  qed
  have mem: "?a \<in> ?S"
  proof -
    from ex obtain top_row left_col h w where r: "top_row + h \<le> ?H" "left_col + w \<le> ?W"
      "uniform_rect mat val top_row left_col h w" "?a = int (h * w)" by blast
    then have "(top_row, left_col, h, w) \<in> set (filter (\<lambda>(top_row, left_col, h, w).
        uniform_rect mat val top_row left_col h w) (sub_rects ?H ?W))"
      by (simp add: sub_rects_set)
    then have "(\<lambda>(top_row, left_col, h, w). int (h * w)) (top_row, left_col, h, w) \<in> ?S"
      unfolding set_map by (rule imageI)
    with r(4) show ?thesis by simp
  qed
  have "Max ?S = ?a" using _ le mem by (rule Max_eqI) simp
  then show ?thesis unfolding mat_max_area_def W by simp
qed

text \<open>
  C1. For a non-empty matrix whose rows all have the same length, and every target value,
  the \<open>(height, width)\<close> returned by \<open>max_size\<close> has \<open>height * width\<close> equal to the maximum
  area of the sub-rectangles whose cells all equal the target value (0 when it never
  occurs).
\<close>

theorem max_size_maximal:
  assumes "mat \<noteq> []" "\<forall>row \<in> set mat. length row = length (hd mat)"
  shows "area (fst (max_size mat val)) = mat_max_area mat val"
  using assms by (rule max_size_area)

theorem max_size_maximal_witness:
  "area (fst (max_size [[1, 1, 0], [1, 1, 0], [0, 0, 0::int]] 1))
     = mat_max_area [[1, 1, 0], [1, 1, 0], [0, 0, 0::int]] 1 \<and>
   mat_max_area [[1, 1, 0], [1, 1, 0], [0, 0, 0::int]] 1 = 4"
proof -
  let ?M = "[[1, 1, 0], [1, 1, 0], [0, 0, 0::int]]"
  have ne: "?M \<noteq> []" by simp
  have eq: "\<forall>row \<in> set ?M. length row = length (hd ?M)" by simp
  have "max_size ?M 1 = ((2, 2), (0, 0))" by code_simp
  then have "area (fst (max_size ?M 1)) = 4" by (simp add: area_def)
  with max_size_maximal [OF ne eq, of 1] show ?thesis by simp
qed

end
